theory Spec2Isabelle
  imports Complex_Main "HOL-Library.Multiset"
begin

section \<open>Data model\<close>

text \<open>
  The repository holds three variants of one image viewer: \<^verbatim>\<open>pictureQT.py\<close> (PyQt5),
  \<^verbatim>\<open>main.py\<close> and \<^verbatim>\<open>pictureGTK.py\<close> (GTK 3). Each keeps its navigation state in
  attributes of the window object. The widgets, dialogs and the image decoder are
  outside the model; where a handler's effect on the state depends on them (whether a
  file decodes, what a directory holds) the dependency is a parameter.

  A \<^verbatim>\<open>pathlib.Path\<close> is the list of its components, a file name a list of code points
  in the range U+0000..U+00FF (one \<^typ>\<open>char\<close> each). Python's \<^verbatim>\<open>int\<close> is \<^typ>\<open>int\<close>;
  Python's \<^verbatim>\<open>float\<close> is idealised as \<^typ>\<open>real\<close> (no rounding, no NaN).
\<close>

type_synonym path = "string list"

datatype error = ValueError | TypeError | IndexError | FileNotFoundError | ZeroDivisionError

text \<open>The attributes set under \<^verbatim>\<open># Estado\<close> in \<^verbatim>\<open>ImageViewer.__init__\<close> of pictureQT.py.\<close>

record viewer =
  files :: "path list"
  index :: int
  scale :: real
  fit_to_window :: bool
  rotation_deg :: int

definition init_viewer :: viewer where
  "init_viewer = \<lparr>files = [], index = -1, scale = 1, fit_to_window = False, rotation_deg = 0\<rparr>"

section \<open>pictureQT.py: display, navigation, zoom, rotation, deletion\<close>

text \<open>
  \<^verbatim>\<open>show_current\<close>: nothing but the label and the status bar change when no file is
  loaded. Otherwise the index is clamped into range and the file is read; when the
  reader yields a null image the handler returns before \<^verbatim>\<open>self.scale = 1.0\<close>. The
  stored rotation is applied to the decoded image and is not written.
  \<open>readable p\<close> stands for \<^verbatim>\<open>not QImageReader(str(p)).read().isNull()\<close>.
  \<^verbatim>\<open>update_pixmap\<close> reads the state and writes the label only.
\<close>

definition show_current :: "(path \<Rightarrow> bool) \<Rightarrow> viewer \<Rightarrow> viewer" where
  "show_current readable st =
     (if files st = [] then st
      else
        let st1 = st\<lparr>index := max 0 (min (index st) (int (length (files st)) - 1))\<rparr>;
            p = files st1 ! nat (index st1)
        in if \<not> readable p then st1 else st1\<lparr>scale := 1\<rparr>)"

definition prev_image :: "(path \<Rightarrow> bool) \<Rightarrow> viewer \<Rightarrow> viewer" where
  "prev_image readable st =
     (if files st = [] then st
      else show_current readable (st\<lparr>index := (index st - 1) mod int (length (files st))\<rparr>))"

definition next_image :: "(path \<Rightarrow> bool) \<Rightarrow> viewer \<Rightarrow> viewer" where
  "next_image readable st =
     (if files st = [] then st
      else show_current readable (st\<lparr>index := (index st + 1) mod int (length (files st))\<rparr>))"

definition apply_zoom :: "real \<Rightarrow> viewer \<Rightarrow> viewer" where
  "apply_zoom factor st =
     (let st1 = st\<lparr>fit_to_window := False\<rparr>;
          st2 = st1\<lparr>scale := scale st1 * factor\<rparr>
      in st2\<lparr>scale := max (5 / 100) (min (scale st2) 20)\<rparr>)"

definition reset_zoom :: "viewer \<Rightarrow> viewer" where
  "reset_zoom st = st\<lparr>fit_to_window := False, scale := 1\<rparr>"

definition toggle_fit :: "viewer \<Rightarrow> viewer" where
  "toggle_fit st = st\<lparr>fit_to_window := \<not> fit_to_window st\<rparr>"

definition rotate :: "int \<Rightarrow> viewer \<Rightarrow> viewer" where
  "rotate deg st = st\<lparr>rotation_deg := (rotation_deg st + deg) mod 360\<rparr>"

text \<open>
  \<^verbatim>\<open>list.pop(i)\<close>: a negative index counts from the end; an index outside
  \<open>[-len, len)\<close> (any index, on the empty list) raises IndexError.
\<close>

definition py_pop :: "'a list \<Rightarrow> int \<Rightarrow> error + ('a \<times> 'a list)" where
  "py_pop xs i =
     (let n = int (length xs); j = (if i < 0 then i + n else i)
      in if 0 \<le> j \<and> j < n
         then Inr (xs ! nat j, take (nat j) xs @ drop (Suc (nat j)) xs)
         else Inl IndexError)"

text \<open>
  \<^verbatim>\<open>after_delete\<close>, called by \<^verbatim>\<open>delete_current\<close> once the file is gone from disk.
  \<^verbatim>\<open>populate_thumbs\<close> rebuilds the thumbnail widget and leaves the state alone.
\<close>

definition after_delete :: "(path \<Rightarrow> bool) \<Rightarrow> viewer \<Rightarrow> error + viewer" where
  "after_delete readable st =
     (case py_pop (files st) (index st) of
        Inl e \<Rightarrow> Inl e
      | Inr (removed, rest) \<Rightarrow>
          let st1 = st\<lparr>files := rest\<rparr>;
              st2 = st1\<lparr>index := max 0 (min (index st1) (int (length (files st1)) - 1))\<rparr>
          in Inr (show_current readable st2))"

text \<open>
  The index is a position of the list; \<open>-1\<close> is what \<^verbatim>\<open>__init__\<close> and
  \<^verbatim>\<open>load_files\<close> store when no file is loaded.
\<close>

definition valid_cursor :: "viewer \<Rightarrow> bool" where
  "valid_cursor st \<longleftrightarrow> 0 \<le> index st \<and> index st < int (length (files st))"

definition cursor_ok :: "viewer \<Rightarrow> bool" where
  "cursor_ok st \<longleftrightarrow> (if files st = [] then index st = -1 else valid_cursor st)"

section \<open>pictureQT.py: the pixmap shown\<close>

text \<open>
  \<^verbatim>\<open>update_pixmap\<close> computes the pixmap the label shows from the stored original
  \<^verbatim>\<open>_orig_pixmap\<close>; a pixmap is modelled by its size in pixels, width first, and the
  null pixmap has no extent. The handler calls three functions of the toolkit, modelled
  as Qt documents them. \<^verbatim>\<open>QSize.scaled(s, Qt.KeepAspectRatio)\<close> is the largest size
  inside \<open>s\<close> with the aspect ratio of the size it is applied to, in integer
  arithmetic; it is larger than the original when \<open>s\<close> is.
  \<^verbatim>\<open>QPixmap.scaled(s, Qt.KeepAspectRatio, ...)\<close> returns a pixmap of that size, each
  side at least 1, and the null pixmap for an empty \<open>s\<close>. A \<^verbatim>\<open>float\<close> times a
  \<^verbatim>\<open>QSize\<close> is the size with both sides multiplied and rounded to the nearest integer.
\<close>

definition qsize_scaled :: "int \<times> int \<Rightarrow> int \<times> int \<Rightarrow> int \<times> int" where
  "qsize_scaled sz s =
     (if fst sz = 0 \<or> snd sz = 0 then s
      else
        let rw = snd s * fst sz div snd sz
        in if rw \<le> fst s then (rw, snd s) else (fst s, fst s * snd sz div fst sz))"

definition pixmap_is_null :: "int \<times> int \<Rightarrow> bool" where
  "pixmap_is_null pm \<longleftrightarrow> fst pm \<le> 0 \<or> snd pm \<le> 0"

definition qpixmap_scaled :: "int \<times> int \<Rightarrow> int \<times> int \<Rightarrow> int \<times> int" where
  "qpixmap_scaled pm s =
     (if pixmap_is_null pm \<or> fst s \<le> 0 \<or> snd s \<le> 0 then (0, 0)
      else let n = qsize_scaled pm s in (max (fst n) 1, max (snd n) 1))"

definition qsize_times :: "real \<Rightarrow> int \<times> int \<Rightarrow> int \<times> int" where
  "qsize_times c sz =
     (\<lfloor>real_of_int (fst sz) * c + 1 / 2\<rfloor>, \<lfloor>real_of_int (snd sz) * c + 1 / 2\<rfloor>)"

text \<open>
  The arguments are the state, the size of the scroll area's viewport and the original
  pixmap (\<open>None\<close> before the first image was shown, when the handler returns at once);
  the result is the pixmap set on the label. In fit mode the target is the viewport
  less 24 pixels each way and the stored scale is not read; otherwise the stored scale
  is applied unless it is 1.0.
\<close>

definition update_pixmap ::
  "viewer \<Rightarrow> int \<times> int \<Rightarrow> (int \<times> int) option \<Rightarrow> (int \<times> int) option" where
  "update_pixmap st viewport orig =
     (case orig of
        None \<Rightarrow> None
      | Some pm \<Rightarrow>
          if fit_to_window st then
            (let avail = (fst viewport - 24, snd viewport - 24)
             in if \<not> pixmap_is_null pm \<and> 0 < fst avail \<and> 0 < snd avail
                then Some (qpixmap_scaled pm avail) else Some pm)
          else if scale st \<noteq> 1 then Some (qpixmap_scaled pm (qsize_times (scale st) pm))
          else Some pm)"

text \<open>The scale at which a pixmap is shown: the shown width over the original width.\<close>

definition display_scale :: "int \<times> int \<Rightarrow> (int \<times> int) option \<Rightarrow> real option" where
  "display_scale pm shown =
     (case shown of None \<Rightarrow> None | Some s \<Rightarrow> Some (real_of_int (fst s) / real_of_int (fst pm)))"

section \<open>main.py and pictureGTK.py: the GTK state\<close>

record gtk_viewer =
  gtk_files :: "path list"
  gtk_index :: int
  gtk_scale :: real

text \<open>
  \<^verbatim>\<open>on_prev\<close> and \<^verbatim>\<open>on_next\<close> are the same in both GTK files; \<^verbatim>\<open>show_image\<close> writes the
  image widget only.
\<close>

definition on_prev :: "gtk_viewer \<Rightarrow> gtk_viewer" where
  "on_prev st =
     (if gtk_files st \<noteq> []
      then st\<lparr>gtk_index := (gtk_index st - 1) mod int (length (gtk_files st))\<rparr> else st)"

definition on_next :: "gtk_viewer \<Rightarrow> gtk_viewer" where
  "on_next st =
     (if gtk_files st \<noteq> []
      then st\<lparr>gtk_index := (gtk_index st + 1) mod int (length (gtk_files st))\<rparr> else st)"

definition on_zoom_in :: "gtk_viewer \<Rightarrow> gtk_viewer" where
  "on_zoom_in st = st\<lparr>gtk_scale := gtk_scale st * (12 / 10)\<rparr>"

definition on_fit :: "gtk_viewer \<Rightarrow> gtk_viewer" where
  "on_fit st = st\<lparr>gtk_scale := 1\<rparr>"

text \<open>
  \<^verbatim>\<open>show_image\<close> of main.py has no fit flag: it always fits. This is the scale it
  computes from the allocated area and the pixbuf's size. The division is Python's
  true division, which raises on a zero divisor.
\<close>

definition show_image_scale :: "int \<Rightarrow> int \<Rightarrow> int \<Rightarrow> int \<Rightarrow> error + real" where
  "show_image_scale area_w area_h img_w img_h =
     (if img_w = 0 \<or> img_h = 0 then Inl ZeroDivisionError
      else Inr (min (min (real_of_int area_w / real_of_int img_w)
                         (real_of_int area_h / real_of_int img_h)) 1))"

section \<open>pictureQT.py: the natural sort key\<close>

text \<open>
  The library functions \<^verbatim>\<open>human_sort_key\<close> calls, on code points up to U+00FF:
  \<^verbatim>\<open>\d\<close> matches the decimal digits \<open>0\<close> to \<open>9\<close>; \<^verbatim>\<open>str.isdigit\<close> also accepts the
  superscripts U+00B2, U+00B3 and U+00B9, which \<^verbatim>\<open>int()\<close> rejects with ValueError;
  \<^verbatim>\<open>str.lower\<close> maps \<open>A\<close>..\<open>Z\<close> and U+00C0..U+00DE (but not U+00D7) 32 places up.
\<close>

definition code_point :: "char \<Rightarrow> nat" where
  "code_point c = of_char c"

definition is_decimal :: "char \<Rightarrow> bool" where
  "is_decimal c \<longleftrightarrow> 48 \<le> code_point c \<and> code_point c \<le> 57"

definition char_isdigit :: "char \<Rightarrow> bool" where
  "char_isdigit c \<longleftrightarrow>
     is_decimal c \<or> code_point c = 178 \<or> code_point c = 179 \<or> code_point c = 185"

definition isdigit :: "string \<Rightarrow> bool" where
  "isdigit t \<longleftrightarrow> t \<noteq> [] \<and> list_all char_isdigit t"

definition char_lower :: "char \<Rightarrow> char" where
  "char_lower c =
     (let n = code_point c
      in if (65 \<le> n \<and> n \<le> 90) \<or> (192 \<le> n \<and> n \<le> 222 \<and> n \<noteq> 215)
         then char_of (n + 32) else c)"

definition lower :: "string \<Rightarrow> string" where
  "lower t = map char_lower t"

definition digit_value :: "char \<Rightarrow> int" where
  "digit_value c = int (code_point c) - 48"

text \<open>
  \<^verbatim>\<open>int(t)\<close> as the key function calls it, on a string that passed \<^verbatim>\<open>isdigit()\<close>: such a
  string has no sign, blank or underscore, so \<^verbatim>\<open>int\<close> returns its decimal value when
  every character is a decimal digit and raises ValueError otherwise. (A file name is
  far shorter than the 4300 digits beyond which \<^verbatim>\<open>int\<close> refuses a string.)
\<close>

definition py_int :: "string \<Rightarrow> error + int" where
  "py_int t =
     (if t \<noteq> [] \<and> list_all is_decimal t
      then Inr (foldl (\<lambda>acc c. 10 * acc + digit_value c) 0 t)
      else Inl ValueError)"

text \<open>
  \<^verbatim>\<open>re.split(r'(\d+)', s)\<close>: the text before the first run of decimal digits, the run
  itself (the group is capturing), and the split of what follows the run. The result
  has odd length; a name that starts or ends with a digit gets an empty first or
  last piece.
\<close>

function re_split_digits :: "string \<Rightarrow> string list" where
  "re_split_digits s =
     (let pre = takeWhile (\<lambda>c. \<not> is_decimal c) s;
          rest = dropWhile (\<lambda>c. \<not> is_decimal c) s
      in if rest = [] then [pre]
         else pre # takeWhile is_decimal rest # re_split_digits (dropWhile is_decimal rest))"
  by pat_completeness auto
termination
proof (relation "measure length")
  show "wf (measure length)" by simp
next
  fix s :: string and pre rest
  assume rest: "rest = dropWhile (\<lambda>c. \<not> is_decimal c) s" and ne: "rest \<noteq> []"
  obtain c cs where r: "rest = c # cs" using ne by (cases rest) auto
  have "is_decimal (hd (dropWhile (\<lambda>c. \<not> is_decimal c) s))"
    using hd_dropWhile [of "\<lambda>c. \<not> is_decimal c" s] ne rest by simp
  then have "is_decimal c" using r rest by simp
  then have "length (dropWhile is_decimal rest) \<le> length cs"
    by (simp add: r length_dropWhile_le)
  also have "length cs < length rest" by (simp add: r)
  also have "length rest \<le> length s"
    unfolding rest by (rule length_dropWhile_le)
  finally show "(dropWhile is_decimal rest, s) \<in> measure length" by simp
qed

declare re_split_digits.simps [simp del]

datatype token = TInt int | TStr string

definition key_token :: "string \<Rightarrow> error + token" where
  "key_token t =
     (if isdigit t
      then (case py_int t of Inl e \<Rightarrow> Inl e | Inr n \<Rightarrow> Inr (TInt n))
      else Inr (TStr (lower t)))"

text \<open>A comprehension evaluates its elements in order; the first exception leaves it.\<close>

fun collect :: "(error + 'a) list \<Rightarrow> error + 'a list" where
  "collect [] = Inr []"
| "collect (r # rs) =
     (case r of
        Inl e \<Rightarrow> Inl e
      | Inr v \<Rightarrow> (case collect rs of Inl e \<Rightarrow> Inl e | Inr vs \<Rightarrow> Inr (v # vs)))"

definition path_name :: "path \<Rightarrow> string" where
  "path_name p = (if p = [] then [] else last p)"

definition human_sort_key :: "path \<Rightarrow> error + token list" where
  "human_sort_key p = collect (map key_token (re_split_digits (path_name p)))"

section \<open>Python's comparison of keys and \<^verbatim>\<open>sorted\<close>\<close>

text \<open>Strings compare by code point, a proper prefix first.\<close>

fun str_lt :: "string \<Rightarrow> string \<Rightarrow> bool" where
  "str_lt [] [] = False"
| "str_lt [] (d # ds) = True"
| "str_lt (c # cs) [] = False"
| "str_lt (c # cs) (d # ds) = (if c = d then str_lt cs ds else code_point c < code_point d)"

text \<open>\<^verbatim>\<open><\<close> between an \<^verbatim>\<open>int\<close> and a \<^verbatim>\<open>str\<close> raises TypeError.\<close>

fun token_lt :: "token \<Rightarrow> token \<Rightarrow> error + bool" where
  "token_lt (TInt a) (TInt b) = Inr (a < b)"
| "token_lt (TStr a) (TStr b) = Inr (str_lt a b)"
| "token_lt (TInt a) (TStr b) = Inl TypeError"
| "token_lt (TStr a) (TInt b) = Inl TypeError"

text \<open>
  \<^verbatim>\<open><\<close> on lists: the first position where the elements are not equal decides, by
  \<^verbatim>\<open><\<close> on those two elements; without such a position the shorter list is smaller.
\<close>

fun key_lt :: "token list \<Rightarrow> token list \<Rightarrow> error + bool" where
  "key_lt [] [] = Inr False"
| "key_lt [] (y # ys) = Inr True"
| "key_lt (x # xs) [] = Inr False"
| "key_lt (x # xs) (y # ys) = (if x = y then key_lt xs ys else token_lt x y)"

text \<open>
  \<^verbatim>\<open>sorted(xs, key=f)\<close>: all keys are computed first, then the elements are sorted
  stably with \<^verbatim>\<open><\<close> on the keys. The model inserts each element, from left to right,
  behind the elements that are not greater; an exception of \<^verbatim>\<open><\<close> leaves the sort.
\<close>

fun insert_sorted ::
  "token list \<times> 'a \<Rightarrow> (token list \<times> 'a) list \<Rightarrow> error + (token list \<times> 'a) list" where
  "insert_sorted x [] = Inr [x]"
| "insert_sorted x (y # ys) =
     (case key_lt (fst x) (fst y) of
        Inl e \<Rightarrow> Inl e
      | Inr True \<Rightarrow> Inr (x # y # ys)
      | Inr False \<Rightarrow> (case insert_sorted x ys of Inl e \<Rightarrow> Inl e | Inr r \<Rightarrow> Inr (y # r)))"

fun sort_pairs ::
  "(token list \<times> 'a) list \<Rightarrow> (token list \<times> 'a) list \<Rightarrow> error + (token list \<times> 'a) list" where
  "sort_pairs acc [] = Inr acc"
| "sort_pairs acc (x # xs) =
     (case insert_sorted x acc of Inl e \<Rightarrow> Inl e | Inr acc' \<Rightarrow> sort_pairs acc' xs)"

definition py_sorted :: "('a \<Rightarrow> error + token list) \<Rightarrow> 'a list \<Rightarrow> error + 'a list" where
  "py_sorted key xs =
     (case collect (map key xs) of
        Inl e \<Rightarrow> Inl e
      | Inr ks \<Rightarrow>
          (case sort_pairs [] (zip ks xs) of Inl e \<Rightarrow> Inl e | Inr ps \<Rightarrow> Inr (map snd ps)))"

section \<open>pictureQT.py: opening a directory or a file\<close>

text \<open>
  What the handlers ask of the file system: \<^verbatim>\<open>Path.is_dir\<close>, the names
  \<^verbatim>\<open>Path.iterdir\<close> yields (it raises when the directory cannot be listed),
  \<^verbatim>\<open>Path.exists\<close> and \<^verbatim>\<open>Path.resolve\<close>.
\<close>

record filesystem =
  is_dir :: "path \<Rightarrow> bool"
  listdir :: "path \<Rightarrow> error + string list"
  path_exists :: "path \<Rightarrow> bool"
  resolve :: "path \<Rightarrow> path"

definition iterdir :: "filesystem \<Rightarrow> path \<Rightarrow> error + path list" where
  "iterdir fs d =
     (case listdir fs d of Inl e \<Rightarrow> Inl e | Inr names \<Rightarrow> Inr (map (\<lambda>n. d @ [n]) names))"

definition parent :: "path \<Rightarrow> path" where
  "parent p = butlast p"

text \<open>
  \<^verbatim>\<open>Path.suffix\<close>: the name from its last dot on, when that dot is neither the first
  nor the last character of the name; otherwise the empty string.
\<close>

definition path_suffix :: "path \<Rightarrow> string" where
  "path_suffix p =
     (let n = path_name p; k = length (takeWhile (\<lambda>c. c \<noteq> CHR ''.'') (rev n))
      in if 0 < k \<and> Suc k < length n then drop (length n - Suc k) n else [])"

definition SUPPORTED_EXTS :: "string set" where
  "SUPPORTED_EXTS =
     {''.jpg'', ''.jpeg'', ''.png'', ''.bmp'', ''.gif'', ''.webp'', ''.tif'', ''.tiff''}"

definition supported :: "path \<Rightarrow> bool" where
  "supported p \<longleftrightarrow> lower (path_suffix p) \<in> SUPPORTED_EXTS"

definition load_files :: "filesystem \<Rightarrow> (path \<Rightarrow> bool) \<Rightarrow> path list \<Rightarrow> viewer \<Rightarrow> viewer" where
  "load_files fs readable fl st =
     (let st1 = st\<lparr>files := filter (path_exists fs) fl\<rparr>;
          st2 = st1\<lparr>index := (if files st1 \<noteq> [] then 0 else -1)\<rparr>
      in show_current readable st2)"

text \<open>The loop of \<^verbatim>\<open>open_path\<close> that looks for the file it was given.\<close>

fun find_resolved :: "filesystem \<Rightarrow> path \<Rightarrow> nat \<Rightarrow> path list \<Rightarrow> nat option" where
  "find_resolved fs p i [] = None"
| "find_resolved fs p i (q # qs) =
     (if resolve fs q = resolve fs p then Some i else find_resolved fs p (Suc i) qs)"

definition open_path :: "filesystem \<Rightarrow> (path \<Rightarrow> bool) \<Rightarrow> path \<Rightarrow> viewer \<Rightarrow> error + viewer" where
  "open_path fs readable p st =
     (if is_dir fs p then
        (case iterdir fs p of
           Inl e \<Rightarrow> Inl e
         | Inr entries \<Rightarrow>
             (case py_sorted human_sort_key entries of
                Inl e \<Rightarrow> Inl e
              | Inr ordered \<Rightarrow> Inr (load_files fs readable (filter supported ordered) st)))
      else
        (case iterdir fs (parent p) of
           Inl e \<Rightarrow> Inl e
         | Inr entries \<Rightarrow>
             let st1 = load_files fs readable (filter supported (p # entries)) st;
                 st2 = (case find_resolved fs p 0 (files st1) of
                          None \<Rightarrow> st1
                        | Some i \<Rightarrow> st1\<lparr>index := int i\<rparr>)
             in Inr (show_current readable st2)))"

text \<open>A directory lists each name once.\<close>

definition listing_distinct :: "filesystem \<Rightarrow> path \<Rightarrow> bool" where
  "listing_distinct fs d \<longleftrightarrow> (case listdir fs d of Inl e \<Rightarrow> True | Inr names \<Rightarrow> distinct names)"

section \<open>Shapes and orders used to state the properties\<close>

text \<open>
  A key is well shaped when strings and integers alternate; \<open>alternating True\<close> starts
  with a string. The pieces \<^verbatim>\<open>re.split\<close> returns alternate between text without a
  decimal digit and non-empty runs of decimal digits.
\<close>

fun alternating :: "bool \<Rightarrow> token list \<Rightarrow> bool" where
  "alternating b [] = True"
| "alternating b (TStr s # ts) = (b \<and> alternating False ts)"
| "alternating b (TInt n # ts) = (\<not> b \<and> alternating True ts)"

fun pieces_ok :: "bool \<Rightarrow> string list \<Rightarrow> bool" where
  "pieces_ok b [] = True"
| "pieces_ok b (s # ss) =
     ((if b then list_all (\<lambda>c. \<not> is_decimal c) s else s \<noteq> [] \<and> list_all is_decimal s)
      \<and> pieces_ok (\<not> b) ss)"

fun is_str :: "token \<Rightarrow> bool" where
  "is_str (TStr s) = True"
| "is_str (TInt n) = False"

fun is_int :: "token \<Rightarrow> bool" where
  "is_int (TStr s) = False"
| "is_int (TInt n) = True"

text \<open>\<open>a < b\<close> and \<open>not (b < a)\<close> on keys, as truth values.\<close>

definition key_less :: "token list \<Rightarrow> token list \<Rightarrow> bool" where
  "key_less a b \<longleftrightarrow> key_lt a b = Inr True"

definition key_le :: "token list \<Rightarrow> token list \<Rightarrow> bool" where
  "key_le a b \<longleftrightarrow> key_lt b a = Inr False"

definition pair_le :: "token list \<times> 'a \<Rightarrow> token list \<times> 'a \<Rightarrow> bool" where
  "pair_le p q \<longleftrightarrow> key_le (fst p) (fst q)"

definition keys_ok :: "(token list \<times> 'a) list \<Rightarrow> bool" where
  "keys_ok ps \<longleftrightarrow> (\<forall>p \<in> set ps. alternating True (fst p))"

text \<open>The order a key function induces: both keys exist and the second is not smaller.\<close>

definition key_ord :: "('a \<Rightarrow> error + token list) \<Rightarrow> 'a \<Rightarrow> 'a \<Rightarrow> bool" where
  "key_ord key x y =
     (case key x of
        Inl e \<Rightarrow> False
      | Inr a \<Rightarrow> (case key y of Inl e \<Rightarrow> False | Inr b \<Rightarrow> key_le a b))"

definition natural_le :: "path \<Rightarrow> path \<Rightarrow> bool" where
  "natural_le = key_ord human_sort_key"

section \<open>Concrete inputs\<close>

definition all_readable :: "path \<Rightarrow> bool" where
  "all_readable p = True"

definition rotated_viewer :: viewer where
  "rotated_viewer =
     \<lparr>files = [[''d'', ''a.png''], [''d'', ''b.png'']], index = 0, scale = 2,
      fit_to_window = True, rotation_deg = 90\<rparr>"

definition single_viewer :: viewer where
  "single_viewer =
     \<lparr>files = [[''d'', ''a.png'']], index = 0, scale = 1,
      fit_to_window = False, rotation_deg = 0\<rparr>"

text \<open>One file is loaded and fit-to-window is on; no zoom was applied.\<close>

definition fit_viewer :: viewer where
  "fit_viewer =
     \<lparr>files = [[''d'', ''a.png'']], index = 0, scale = 1,
      fit_to_window = True, rotation_deg = 0\<rparr>"

text \<open>The state \<^verbatim>\<open>__init__\<close> of the GTK viewers sets up.\<close>

definition gtk_initial :: gtk_viewer where
  "gtk_initial = \<lparr>gtk_files = [], gtk_index = -1, gtk_scale = 1\<rparr>"

definition gtk_example :: gtk_viewer where
  "gtk_example =
     \<lparr>gtk_files = [[''d'', ''a.png''], [''d'', ''b.png''], [''d'', ''c.png'']],
      gtk_index = 2, gtk_scale = 2\<rparr>"

text \<open>A directory \<open>d\<close> with the three files of the specification's example.\<close>

definition example_fs :: filesystem where
  "example_fs =
     \<lparr>is_dir = (\<lambda>p. p = [''d'']),
      listdir = (\<lambda>p. if p = [''d''] then Inr [''img2.png'', ''img10.png'', ''img1.png'']
                      else Inl FileNotFoundError),
      path_exists = (\<lambda>p. True),
      resolve = (\<lambda>p. p)\<rparr>"

text \<open>A directory \<open>d\<close> that also holds a file whose name starts with U+00B2.\<close>

definition superscript_name :: string where
  "superscript_name = CHR 0xB2 # ''10.png''"

definition superscript_fs :: filesystem where
  "superscript_fs =
     \<lparr>is_dir = (\<lambda>p. p = [''d'']),
      listdir = (\<lambda>p. if p = [''d''] then Inr [''img1.png'', superscript_name]
                      else Inl FileNotFoundError),
      path_exists = (\<lambda>p. True),
      resolve = (\<lambda>p. p)\<rparr>"

section \<open>The displayed file and the cursor\<close>

lemma show_current_files [simp]: "files (show_current r st) = files st"
  by (simp add: show_current_def Let_def)

lemma show_current_rotation [simp]: "rotation_deg (show_current r st) = rotation_deg st"
  by (simp add: show_current_def Let_def)

lemma show_current_fit [simp]: "fit_to_window (show_current r st) = fit_to_window st"
  by (simp add: show_current_def Let_def)

lemma show_current_index:
  "index (show_current r st) =
     (if files st = [] then index st else max 0 (min (index st) (int (length (files st)) - 1)))"
  by (simp add: show_current_def Let_def)

lemma show_current_scale:
  "scale (show_current r st) =
     (if files st \<noteq> [] \<and> r (files st ! nat (index (show_current r st))) then 1 else scale st)"
  by (simp add: show_current_def Let_def)

lemma show_current_valid: "files st \<noteq> [] \<Longrightarrow> valid_cursor (show_current r st)"
  by (auto simp: valid_cursor_def show_current_index)

lemma show_current_index_valid: "valid_cursor st \<Longrightarrow> index (show_current r st) = index st"
  by (auto simp: valid_cursor_def show_current_index)

lemma next_image_index:
  "files st \<noteq> [] \<Longrightarrow> index (next_image r st) = (index st + 1) mod int (length (files st))"
  by (simp add: next_image_def show_current_index)

lemma prev_image_index:
  "files st \<noteq> [] \<Longrightarrow> index (prev_image r st) = (index st - 1) mod int (length (files st))"
  by (simp add: prev_image_def show_current_index)

lemma next_image_files [simp]: "files (next_image r st) = files st"
  by (simp add: next_image_def)

lemma prev_image_files [simp]: "files (prev_image r st) = files st"
  by (simp add: prev_image_def)

section \<open>The shape of a sort key\<close>

lemma pieces_ok_split: "pieces_ok True (re_split_digits s)"
proof (induction s rule: re_split_digits.induct)
  case (1 s)
  let ?pre = "takeWhile (\<lambda>c. \<not> is_decimal c) s"
  let ?rest = "dropWhile (\<lambda>c. \<not> is_decimal c) s"
  have pre: "list_all (\<lambda>c. \<not> is_decimal c) ?pre"
    by (auto simp: list_all_iff dest: set_takeWhileD)
  show ?case
  proof (cases "?rest = []")
    case True
    then show ?thesis using pre by (subst re_split_digits.simps) (simp add: Let_def)
  next
    case False
    then obtain c cs where r: "?rest = c # cs" by (cases ?rest) auto
    have "is_decimal (hd ?rest)" using hd_dropWhile [of "\<lambda>c. \<not> is_decimal c" s] False by simp
    then have d: "is_decimal c" using r by simp
    then have ne: "takeWhile is_decimal ?rest \<noteq> []" by (simp add: r)
    have ds: "list_all is_decimal (takeWhile is_decimal ?rest)"
      by (auto simp: list_all_iff dest: set_takeWhileD)
    have "pieces_ok True (re_split_digits (dropWhile is_decimal ?rest))"
      using "1.IH" [OF refl refl False] .
    then show ?thesis using pre ne ds False
      by (subst re_split_digits.simps) (simp add: Let_def)
  qed
qed

lemma key_token_text:
  assumes "list_all (\<lambda>c. \<not> is_decimal c) s" and "key_token s = Inr t"
  shows "t = TStr (lower s)"
proof (cases "isdigit s")
  case True
  then have "s \<noteq> []" by (simp add: isdigit_def)
  then have "\<not> list_all is_decimal s" using assms(1) by (cases s) auto
  then have "py_int s = Inl ValueError" by (simp add: py_int_def)
  then show ?thesis using assms(2) True by (simp add: key_token_def)
next
  case False
  then show ?thesis using assms(2) by (simp add: key_token_def)
qed

lemma is_decimal_isdigit: "is_decimal c \<Longrightarrow> char_isdigit c"
  by (simp add: char_isdigit_def)

lemma key_token_digits:
  assumes "s \<noteq> []" and "list_all is_decimal s"
  shows "\<exists>n. key_token s = Inr (TInt n)"
proof -
  have "isdigit s" using assms by (auto simp: isdigit_def list_all_iff is_decimal_isdigit)
  then show ?thesis using assms by (simp add: key_token_def py_int_def)
qed

lemma collect_Cons_Inr:
  "collect (r # rs) = Inr vs \<longleftrightarrow> (\<exists>v vs'. r = Inr v \<and> collect rs = Inr vs' \<and> vs = v # vs')"
  by (auto split: sum.splits)

lemma alternating_tokens:
  "pieces_ok b ss \<Longrightarrow> collect (map key_token ss) = Inr ts \<Longrightarrow> alternating b ts"
proof (induction ss arbitrary: b ts)
  case Nil
  then show ?case by simp
next
  case (Cons s ss)
  from Cons.prems(2) obtain t ts' where t: "key_token s = Inr t"
    and ts': "collect (map key_token ss) = Inr ts'" and ts: "ts = t # ts'"
    by (auto split: sum.splits)
  have rest: "alternating (\<not> b) ts'" using Cons.IH [OF _ ts'] Cons.prems(1) by simp
  show ?case
  proof (cases b)
    case True
    then have "t = TStr (lower s)" using key_token_text [OF _ t] Cons.prems(1) by simp
    then show ?thesis using rest True ts by simp
  next
    case False
    then obtain n where "key_token s = Inr (TInt n)"
      using key_token_digits [of s] Cons.prems(1) by auto
    then show ?thesis using rest False ts t by simp
  qed
qed

lemma human_sort_key_alternating: "human_sort_key p = Inr k \<Longrightarrow> alternating True k"
  unfolding human_sort_key_def using alternating_tokens [OF pieces_ok_split] .

lemma alternating_nth:
  "alternating b k \<Longrightarrow> i < length k \<Longrightarrow>
     (if even i = b then is_str (k ! i) else is_int (k ! i))"
proof (induction b k arbitrary: i rule: alternating.induct)
  case (1 b)
  then show ?case by simp
next
  case (2 b s ts)
  then show ?case by (cases i) auto
next
  case (3 b n ts)
  then show ?case by (cases i) auto
qed

lemma key_lt_alternating:
  "alternating b xs \<Longrightarrow> alternating b ys \<Longrightarrow> \<exists>r. key_lt xs ys = Inr r"
proof (induction xs ys arbitrary: b rule: key_lt.induct)
  case (4 x xs y ys)
  show ?case
  proof (cases "x = y")
    case True
    then show ?thesis using 4 by (cases x) auto
  next
    case False
    then show ?thesis using "4.prems" by (cases x; cases y) auto
  qed
qed auto

section \<open>The comparison of well-shaped keys is a strict linear order\<close>

lemma code_point_inj: "code_point c = code_point d \<longleftrightarrow> c = d"
  by (simp add: code_point_def)

lemma str_lt_irrefl [simp]: "\<not> str_lt a a"
  by (induction a) auto

lemma str_lt_trichotomy: "a = b \<or> str_lt a b \<or> str_lt b a"
proof (induction a b rule: str_lt.induct)
  case (4 c cs d ds)
  then show ?case using code_point_inj [of c d] by (cases "c = d") auto
qed auto

lemma str_lt_asym: "str_lt a b \<Longrightarrow> \<not> str_lt b a"
  by (induction a b rule: str_lt.induct) (auto split: if_splits)

lemma str_lt_trans: "str_lt a b \<Longrightarrow> str_lt b c \<Longrightarrow> str_lt a c"
proof (induction a b arbitrary: c rule: str_lt.induct)
  case (2 d ds)
  then show ?case by (cases c) auto
next
  case (4 x xs y ys)
  then show ?case by (cases c) (auto split: if_splits)
qed auto

lemma key_lt_refl [simp]: "key_lt a a = Inr False"
  by (induction a) auto

lemma key_less_irrefl [simp]: "\<not> key_less a a"
  by (simp add: key_less_def)

lemma key_less_trichotomy:
  "alternating b x \<Longrightarrow> alternating b y \<Longrightarrow> x = y \<or> key_less x y \<or> key_less y x"
proof (induction x y arbitrary: b rule: key_lt.induct)
  case (4 x xs y ys)
  show ?case
  proof (cases "x = y")
    case True
    then show ?thesis using 4 by (cases x) (auto simp: key_less_def)
  next
    case False
    then show ?thesis using "4.prems" str_lt_trichotomy
      by (cases x; cases y) (auto simp: key_less_def)
  qed
qed (auto simp: key_less_def)

lemma key_less_asym:
  "alternating b x \<Longrightarrow> alternating b y \<Longrightarrow> key_less x y \<Longrightarrow> \<not> key_less y x"
proof (induction x y arbitrary: b rule: key_lt.induct)
  case (4 x xs y ys)
  show ?case
  proof (cases "x = y")
    case True
    then show ?thesis using 4 by (cases x) (auto simp: key_less_def)
  next
    case False
    then show ?thesis using "4.prems" str_lt_asym
      by (cases x; cases y) (auto simp: key_less_def)
  qed
qed (auto simp: key_less_def)

lemma token_lt_trans:
  "token_lt x y = Inr True \<Longrightarrow> token_lt y w = Inr True \<Longrightarrow> token_lt x w = Inr True"
  by (cases x; cases y; cases w) (auto intro: str_lt_trans)

lemma token_lt_asym: "token_lt x y = Inr True \<Longrightarrow> token_lt y x \<noteq> Inr True"
  by (cases x; cases y) (auto dest: str_lt_asym)

lemma token_lt_irrefl: "token_lt x x \<noteq> Inr True"
  by (cases x) auto

lemma alternating_tl: "alternating b (x # xs) \<Longrightarrow> alternating (\<not> b) xs"
  by (cases x) auto

lemma key_less_trans:
  "alternating b x \<Longrightarrow> alternating b y \<Longrightarrow> alternating b z \<Longrightarrow>
   key_less x y \<Longrightarrow> key_less y z \<Longrightarrow> key_less x z"
proof (induction x y arbitrary: b z rule: key_lt.induct)
  case (1)
  then show ?case by simp
next
  case (2 y ys)
  then show ?case by (cases z) (simp_all add: key_less_def)
next
  case (3 x xs)
  then show ?case by (simp add: key_less_def)
next
  case (4 x xs y ys)
  from "4.prems"(5) obtain w ws where z: "z = w # ws" by (cases z) (simp_all add: key_less_def)
  show ?case
  proof (cases "x = y")
    case xy: True
    show ?thesis
    proof (cases "y = w")
      case True
      have "key_less xs ys" using "4.prems"(4) xy by (simp add: key_less_def)
      moreover have "key_less ys ws" using "4.prems"(5) True z by (simp add: key_less_def)
      ultimately have "key_less xs ws"
        using "4.IH" [OF xy, of "\<not> b" ws] "4.prems"(1,2,3) z alternating_tl by blast
      then show ?thesis using xy True z by (simp add: key_less_def)
    next
      case False
      then show ?thesis using "4.prems"(5) xy z by (simp add: key_less_def)
    qed
  next
    case xy: False
    then have lt1: "token_lt x y = Inr True" using "4.prems"(4) by (simp add: key_less_def)
    show ?thesis
    proof (cases "y = w")
      case True
      then show ?thesis using lt1 xy z by (simp add: key_less_def)
    next
      case False
      then have lt2: "token_lt y w = Inr True" using "4.prems"(5) z by (simp add: key_less_def)
      have "x \<noteq> w" using lt1 lt2 token_lt_asym by blast
      then show ?thesis using token_lt_trans [OF lt1 lt2] z by (simp add: key_less_def)
    qed
  qed
qed

section \<open>The insertion sort\<close>

lemma key_lt_cases:
  assumes "alternating b x" "alternating b y"
  shows "key_lt x y = Inr True \<or> key_lt x y = Inr False"
  using key_lt_alternating [OF assms] by auto

lemma key_le_iff: "alternating b x \<Longrightarrow> alternating b y \<Longrightarrow> key_le x y \<longleftrightarrow> \<not> key_less y x"
  using key_lt_cases [of b y x] by (auto simp: key_le_def key_less_def)

lemma key_le_trans:
  assumes "alternating b x" "alternating b y" "alternating b z"
    and "key_le x y" "key_le y z"
  shows "key_le x z"
proof -
  have xy: "\<not> key_less y x" and yz: "\<not> key_less z y"
    using assms by (simp_all add: key_le_iff)
  have "\<not> key_less z x"
  proof
    assume zx: "key_less z x"
    from key_less_trichotomy [OF assms(1,2)] xy have "x = y \<or> key_less x y" by blast
    then show False
    proof
      assume "x = y" with zx yz show False by simp
    next
      assume "key_less x y"
      then have "key_less z y" using key_less_trans [OF assms(3,1,2) zx] by simp
      with yz show False by simp
    qed
  qed
  then show ?thesis using assms by (simp add: key_le_iff)
qed

lemma key_less_imp_le:
  "alternating b x \<Longrightarrow> alternating b y \<Longrightarrow> key_less x y \<Longrightarrow> key_le x y"
  using key_less_asym by (auto simp: key_le_iff)

lemma insert_sorted_mset:
  "insert_sorted x ys = Inr r \<Longrightarrow> mset r = add_mset x (mset ys)"
proof (induction ys arbitrary: r)
  case Nil
  then show ?case by auto
next
  case (Cons y ys)
  then show ?case by (auto split: sum.splits bool.splits if_splits)
qed

lemma insert_sorted_returns:
  "keys_ok (x # ys) \<Longrightarrow> \<exists>r. insert_sorted x ys = Inr r"
proof (induction ys)
  case Nil
  then show ?case by simp
next
  case (Cons y ys)
  then have "alternating True (fst x)" "alternating True (fst y)" and ok: "keys_ok (x # ys)"
    by (simp_all add: keys_ok_def)
  from key_lt_cases [OF this(1,2)] Cons.IH [OF ok] show ?case by auto
qed

lemma keys_ok_mset: "mset r = mset ps \<Longrightarrow> keys_ok r = keys_ok ps"
  by (auto simp: keys_ok_def dest: mset_eq_setD)

lemma insert_sorted_sorted:
  assumes "keys_ok (x # ys)" and "sorted_wrt pair_le ys" and "insert_sorted x ys = Inr r"
  shows "sorted_wrt pair_le r"
  using assms
proof (induction ys arbitrary: r)
  case Nil
  then show ?case by auto
next
  case (Cons y ys)
  have ax: "alternating True (fst x)" and ay: "alternating True (fst y)" and ok: "keys_ok (x # ys)"
    and oks: "\<forall>p \<in> set ys. alternating True (fst p)"
    using Cons.prems(1) by (simp_all add: keys_ok_def)
  from key_lt_cases [OF ax ay] show ?case
  proof
    assume lt: "key_lt (fst x) (fst y) = Inr True"
    then have r: "r = x # y # ys" using Cons.prems(3) by simp
    have xy: "pair_le x y"
      using key_less_imp_le [OF ax ay] lt by (simp add: pair_le_def key_less_def)
    have "pair_le x p" if "p \<in> set ys" for p
    proof -
      have "pair_le y p" using Cons.prems(2) that by simp
      then show ?thesis
        using key_le_trans [OF ax ay _ _ _, of "fst p"] xy oks that by (simp add: pair_le_def)
    qed
    then show ?thesis using r xy Cons.prems(2) by simp
  next
    assume nlt: "key_lt (fst x) (fst y) = Inr False"
    then obtain r' where r': "insert_sorted x ys = Inr r'" and r: "r = y # r'"
      using Cons.prems(3) by (auto split: sum.splits)
    have s: "sorted_wrt pair_le r'" using Cons.IH [OF ok _ r'] Cons.prems(2) by simp
    have "set r' = insert x (set ys)" using insert_sorted_mset [OF r'] by (metis mset_eq_setD set_mset_add_mset_insert set_mset_mset)
    moreover have "pair_le y x" using nlt by (simp add: pair_le_def key_le_def)
    ultimately show ?thesis using s r Cons.prems(2) by auto
  qed
qed

lemma insert_sorted_stable:
  assumes "keys_ok (x # ys)" and "sorted_wrt pair_le ys" and "insert_sorted x ys = Inr r"
  shows "filter (\<lambda>p. fst p = k) r = filter (\<lambda>p. fst p = k) (ys @ [x])"
  using assms
proof (induction ys arbitrary: r)
  case Nil
  then show ?case by auto
next
  case (Cons y ys)
  have ax: "alternating True (fst x)" and ay: "alternating True (fst y)" and ok: "keys_ok (x # ys)"
    and oks: "\<forall>p \<in> set ys. alternating True (fst p)"
    using Cons.prems(1) by (simp_all add: keys_ok_def)
  from key_lt_cases [OF ax ay] show ?case
  proof
    assume lt: "key_lt (fst x) (fst y) = Inr True"
    then have r: "r = x # y # ys" using Cons.prems(3) by simp
    have "fst p \<noteq> fst x" if "p \<in> set (y # ys)" for p
    proof
      assume eq: "fst p = fst x"
      have "pair_le y p \<or> p = y" using Cons.prems(2) that by auto
      then have "key_le (fst y) (fst x)" using eq lt by (auto simp: pair_le_def key_le_def)
      then show False using lt by (simp add: key_le_def)
    qed
    then have "fst x = k \<Longrightarrow> filter (\<lambda>p. fst p = k) (y # ys) = []"
      by (auto simp: filter_empty_conv)
    then show ?thesis using r by (cases "fst x = k") auto
  next
    assume nlt: "key_lt (fst x) (fst y) = Inr False"
    then obtain r' where r': "insert_sorted x ys = Inr r'" and r: "r = y # r'"
      using Cons.prems(3) by (auto split: sum.splits)
    have "filter (\<lambda>p. fst p = k) r' = filter (\<lambda>p. fst p = k) (ys @ [x])"
      using Cons.IH [OF ok _ r'] Cons.prems(2) by simp
    then show ?thesis using r by simp
  qed
qed

lemma sort_pairs_returns:
  "keys_ok (acc @ xs) \<Longrightarrow> \<exists>r. sort_pairs acc xs = Inr r"
proof (induction xs arbitrary: acc)
  case Nil
  then show ?case by simp
next
  case (Cons x xs)
  have "keys_ok (x # acc)" using Cons.prems by (auto simp: keys_ok_def)
  then obtain acc' where a: "insert_sorted x acc = Inr acc'"
    using insert_sorted_returns by blast
  have "keys_ok (acc' @ xs)"
    using insert_sorted_mset [OF a] Cons.prems keys_ok_mset [of "acc' @ xs" "acc @ x # xs"] by simp
  from Cons.IH [OF this] a show ?case by simp
qed

lemma sort_pairs_mset:
  "sort_pairs acc xs = Inr r \<Longrightarrow> mset r = mset acc + mset xs"
proof (induction xs arbitrary: acc)
  case Nil
  then show ?case by simp
next
  case (Cons x xs)
  then show ?case by (auto split: sum.splits dest!: insert_sorted_mset)
qed

lemma sort_pairs_sorted:
  "keys_ok (acc @ xs) \<Longrightarrow> sorted_wrt pair_le acc \<Longrightarrow> sort_pairs acc xs = Inr r \<Longrightarrow>
   sorted_wrt pair_le r \<and> filter (\<lambda>p. fst p = k) r = filter (\<lambda>p. fst p = k) (acc @ xs)"
proof (induction xs arbitrary: acc)
  case Nil
  then show ?case by simp
next
  case (Cons x xs)
  have okx: "keys_ok (x # acc)" using Cons.prems(1) by (auto simp: keys_ok_def)
  from Cons.prems(3) obtain acc' where a: "insert_sorted x acc = Inr acc'"
    and r: "sort_pairs acc' xs = Inr r" by (auto split: sum.splits)
  have ok': "keys_ok (acc' @ xs)"
    using insert_sorted_mset [OF a] Cons.prems(1) keys_ok_mset [of "acc' @ xs" "acc @ x # xs"] by simp
  have s': "sorted_wrt pair_le acc'" using insert_sorted_sorted [OF okx Cons.prems(2) a] .
  have st: "filter (\<lambda>p. fst p = k) acc' = filter (\<lambda>p. fst p = k) (acc @ [x])"
    using insert_sorted_stable [OF okx Cons.prems(2) a] .
  from Cons.IH [OF ok' s' r] st show ?case by simp
qed

section \<open>What \<^verbatim>\<open>sorted\<close> returns\<close>

lemma collect_all2:
  "collect (map f xs) = Inr ks \<Longrightarrow> list_all2 (\<lambda>x k. f x = Inr k) xs ks"
proof (induction xs arbitrary: ks)
  case Nil
  then show ?case by simp
next
  case (Cons x xs)
  then show ?case by (auto split: sum.splits)
qed

lemma collect_returns:
  "\<forall>x \<in> set xs. \<exists>k. f x = Inr k \<Longrightarrow> \<exists>ks. collect (map f xs) = Inr ks"
  by (induction xs) auto

lemma collect_raises:
  "collect (map f xs) = Inl e \<Longrightarrow> \<exists>x \<in> set xs. f x = Inl e"
proof (induction xs)
  case Nil
  then show ?case by simp
next
  case (Cons x xs)
  then show ?case by (auto split: sum.splits)
qed

lemma zip_keys:
  assumes "list_all2 (\<lambda>x k. f x = Inr k) xs ks" and "p \<in> set (zip ks xs)"
  shows "f (snd p) = Inr (fst p)"
proof -
  from assms(2) obtain i where i: "i < length ks" "i < length xs" "ks ! i = fst p" "xs ! i = snd p"
    by (auto simp: in_set_zip)
  from list_all2_nthD [OF assms(1) i(2)] i show ?thesis by simp
qed

lemma collect_all_return:
  "collect (map f xs) = Inr ks \<Longrightarrow> x \<in> set xs \<Longrightarrow> \<exists>k. f x = Inr k"
proof (induction xs arbitrary: ks)
  case Nil
  then show ?case by simp
next
  case (Cons y ys)
  then show ?case by (auto split: sum.splits)
qed

lemma py_sorted_spec:
  assumes ok: "\<forall>x \<in> set xs. \<exists>k. key x = Inr k \<and> alternating True k"
  shows "\<exists>out. py_sorted key xs = Inr out \<and> mset out = mset xs
           \<and> sorted_wrt (key_ord key) out
           \<and> (\<forall>k. filter (\<lambda>x. key x = Inr k) out = filter (\<lambda>x. key x = Inr k) xs)"
proof -
  from ok obtain ks where ks: "collect (map key xs) = Inr ks"
    using collect_returns [of xs key] by blast
  have a2: "list_all2 (\<lambda>x k. key x = Inr k) xs ks" using collect_all2 [OF ks] .
  then have len: "length ks = length xs" by (simp add: list_all2_lengthD)
  let ?ps = "zip ks xs"
  have kp: "key (snd p) = Inr (fst p)" if "p \<in> set ?ps" for p
    using zip_keys [OF a2 that] .
  have okp: "keys_ok ([] @ ?ps)"
    unfolding keys_ok_def
  proof
    fix p assume p: "p \<in> set ([] @ ?ps)"
    then have "(fst p, snd p) \<in> set (zip ks xs)" by simp
    then have "snd p \<in> set xs" by (rule set_zip_rightD)
    with ok kp [of p] p show "alternating True (fst p)" by auto
  qed
  then obtain r where r: "sort_pairs [] ?ps = Inr r"
    using sort_pairs_returns by blast
  have ms: "mset r = mset ?ps" using sort_pairs_mset [OF r] by simp
  then have setr: "set r = set ?ps" by (rule mset_eq_setD)
  have out: "py_sorted key xs = Inr (map snd r)"
    by (simp add: py_sorted_def ks r)
  have "mset (map snd r) = image_mset snd (mset ?ps)" using ms by (metis mset_map)
  also have "\<dots> = mset (map snd ?ps)" by simp
  also have "\<dots> = mset xs" using len by simp
  finally have m: "mset (map snd r) = mset xs" .
  have sr: "sorted_wrt pair_le r" using sort_pairs_sorted [OF okp _ r] by simp
  have "sorted_wrt (\<lambda>p q. key_ord key (snd p) (snd q)) r"
  proof (rule sorted_wrt_mono_rel [OF _ sr])
    fix p q assume "p \<in> set r" "q \<in> set r" "pair_le p q"
    then show "key_ord key (snd p) (snd q)"
      using kp setr by (simp add: key_ord_def pair_le_def)
  qed
  then have s: "sorted_wrt (key_ord key) (map snd r)" by (simp add: sorted_wrt_map)
  have st: "filter (\<lambda>x. key x = Inr k) (map snd r) = filter (\<lambda>x. key x = Inr k) xs" for k
  proof -
    have "filter (\<lambda>x. key x = Inr k) (map snd r) = map snd (filter (\<lambda>p. key (snd p) = Inr k) r)"
      by (simp add: filter_map comp_def)
    also have "filter (\<lambda>p. key (snd p) = Inr k) r = filter (\<lambda>p. fst p = k) r"
      by (rule filter_cong) (auto simp: kp setr)
    also have "\<dots> = filter (\<lambda>p. fst p = k) ?ps"
      using sort_pairs_sorted [OF okp _ r, of k] by simp
    also have "\<dots> = filter (\<lambda>p. key (snd p) = Inr k) ?ps"
      by (rule filter_cong) (auto simp: kp)
    also have "map snd \<dots> = filter (\<lambda>x. key x = Inr k) (map snd ?ps)"
      by (simp add: filter_map comp_def)
    also have "map snd ?ps = xs" using len by simp
    finally show ?thesis .
  qed
  from out m s st show ?thesis by blast
qed

lemma py_sorted_mset:
  assumes "py_sorted key xs = Inr out"
  shows "mset out = mset xs"
proof -
  from assms obtain ks r where ks: "collect (map key xs) = Inr ks"
    and r: "sort_pairs [] (zip ks xs) = Inr r" and out: "out = map snd r"
    by (auto simp: py_sorted_def split: sum.splits)
  have len: "length ks = length xs" using collect_all2 [OF ks] by (simp add: list_all2_lengthD)
  have "mset (map snd r) = image_mset snd (mset (zip ks xs))"
    using sort_pairs_mset [OF r] by (metis add_cancel_left_left mset.simps(1) mset_map)
  also have "\<dots> = mset (map snd (zip ks xs))" by simp
  also have "\<dots> = mset xs" using len by simp
  finally show ?thesis using out by simp
qed

lemma human_sort_key_error: "human_sort_key p = Inl e \<Longrightarrow> e = ValueError"
proof -
  assume "human_sort_key p = Inl e"
  then obtain t where "key_token t = Inl e"
    unfolding human_sort_key_def using collect_raises by blast
  then show ?thesis by (auto simp: key_token_def py_int_def split: if_splits sum.splits)
qed

lemma py_sorted_human_no_TypeError: "py_sorted human_sort_key ps \<noteq> Inl TypeError"
proof (cases "\<forall>p \<in> set ps. \<exists>k. human_sort_key p = Inr k")
  case True
  then have "\<forall>p \<in> set ps. \<exists>k. human_sort_key p = Inr k \<and> alternating True k"
    using human_sort_key_alternating by blast
  from py_sorted_spec [OF this] show ?thesis by auto
next
  case False
  then obtain p e where "p \<in> set ps" "human_sort_key p = Inl e"
    by (metis sum.exhaust_sel sum.collapse)
  then have "\<not> (\<exists>ks. collect (map human_sort_key ps) = Inr ks)"
    using collect_all_return [of human_sort_key ps _ p] by auto
  then obtain e' where e': "collect (map human_sort_key ps) = Inl e'"
    by (cases "collect (map human_sort_key ps)") auto
  then obtain q where "human_sort_key q = Inl e'" using collect_raises by blast
  then have "e' = ValueError" by (rule human_sort_key_error)
  then show ?thesis using e' by (simp add: py_sorted_def)
qed

section \<open>The key ignores letter case\<close>

lemma code_point_char_of: "n < 256 \<Longrightarrow> code_point (char_of n) = n"
  by (simp add: code_point_def)

lemma code_point_lower:
  "code_point (char_lower c) =
     (if (65 \<le> code_point c \<and> code_point c \<le> 90)
         \<or> (192 \<le> code_point c \<and> code_point c \<le> 222 \<and> code_point c \<noteq> 215)
      then code_point c + 32 else code_point c)"
  by (auto simp: char_lower_def Let_def code_point_char_of)

lemma is_decimal_lower [simp]: "is_decimal (char_lower c) = is_decimal c"
  by (auto simp: is_decimal_def code_point_lower)

lemma char_isdigit_lower [simp]: "char_isdigit (char_lower c) = char_isdigit c"
  by (auto simp: char_isdigit_def is_decimal_def code_point_lower)

lemma char_lower_idem [simp]: "char_lower (char_lower c) = char_lower c"
proof -
  have "code_point (char_lower (char_lower c)) = code_point (char_lower c)"
    by (subst code_point_lower) (auto simp: code_point_lower)
  then show ?thesis by (simp add: code_point_inj)
qed

lemma char_lower_decimal: "is_decimal c \<Longrightarrow> char_lower c = c"
proof -
  assume "is_decimal c"
  then have "code_point (char_lower c) = code_point c"
    by (auto simp: is_decimal_def code_point_lower)
  then show ?thesis by (simp add: code_point_inj)
qed

lemma lower_idem [simp]: "lower (lower t) = lower t"
  by (simp add: lower_def)

lemma isdigit_lower [simp]: "isdigit (lower t) = isdigit t"
  by (simp add: isdigit_def lower_def list_all_iff)

lemma all_decimal_lower [simp]: "list_all is_decimal (lower t) = list_all is_decimal t"
  by (simp add: lower_def list_all_iff)

lemma lower_decimal: "list_all is_decimal t \<Longrightarrow> lower t = t"
  by (induction t) (auto simp: lower_def char_lower_decimal)

lemma lower_Nil [simp]: "lower t = [] \<longleftrightarrow> t = []"
  by (simp add: lower_def)

lemma py_int_lower: "py_int (lower t) = py_int t"
proof (cases "t \<noteq> [] \<and> list_all is_decimal t")
  case True
  then show ?thesis by (simp add: lower_decimal)
next
  case False
  then show ?thesis by (auto simp: py_int_def)
qed

lemma key_token_lower: "key_token (lower t) = key_token t"
  by (simp add: key_token_def py_int_lower)

lemma takeWhile_lower:
  "takeWhile (\<lambda>c. \<not> is_decimal c) (lower s) = lower (takeWhile (\<lambda>c. \<not> is_decimal c) s)"
  "dropWhile (\<lambda>c. \<not> is_decimal c) (lower s) = lower (dropWhile (\<lambda>c. \<not> is_decimal c) s)"
  "takeWhile is_decimal (lower s) = lower (takeWhile is_decimal s)"
  "dropWhile is_decimal (lower s) = lower (dropWhile is_decimal s)"
  by (simp_all add: lower_def takeWhile_map dropWhile_map comp_def)

lemma re_split_digits_lower: "re_split_digits (lower s) = map lower (re_split_digits s)"
proof (induction s rule: re_split_digits.induct)
  case (1 s)
  let ?rest = "dropWhile (\<lambda>c. \<not> is_decimal c) s"
  show ?case
  proof (cases "?rest = []")
    case True
    then show ?thesis
      by (subst (1 2) re_split_digits.simps) (simp add: Let_def takeWhile_lower)
  next
    case False
    have "re_split_digits (lower (dropWhile is_decimal ?rest))
            = map lower (re_split_digits (dropWhile is_decimal ?rest))"
      using "1.IH" [OF refl refl False] .
    then show ?thesis using False
      by (subst (1 2) re_split_digits.simps) (simp add: Let_def takeWhile_lower)
  qed
qed

lemma path_name_snoc [simp]: "path_name (d @ [n]) = n"
  by (simp add: path_name_def)

lemma human_sort_key_ignores_case:
  "human_sort_key (d @ [lower n]) = human_sort_key (d @ [n])"
  by (simp add: human_sort_key_def re_split_digits_lower comp_def key_token_lower)

section \<open>Navigation and the view state\<close>

text \<open>
  Claim C1, as the specification states it: on a non-empty image set, \<open>next()\<close> and
  \<open>previous()\<close> reset the rotation to 0 and the scale to 1.0. The Qt viewer keeps the
  rotation: from a view rotated by 90 degrees the next image is shown rotated by 90
  degrees as well.
\<close>

theorem navigation_resets_rotation_counterexample:
  "\<not> (rotation_deg (next_image all_readable rotated_viewer) = 0
      \<and> scale (next_image all_readable rotated_viewer) = 1)"
  by (simp add: next_image_def show_current_def rotated_viewer_def Let_def)

text \<open>
  Claim C1, amended: on a non-empty image set, \<^verbatim>\<open>next_image\<close> and \<^verbatim>\<open>prev_image\<close> leave
  the rotation and the fit-to-window flag as they were, and set the scale to 1.0 when the
  file under the new cursor decodes; when it does not decode the scale stays as well.
\<close>

theorem navigation_view_state:
  assumes "files st \<noteq> []"
  shows "rotation_deg (next_image readable st) = rotation_deg st
       \<and> rotation_deg (prev_image readable st) = rotation_deg st
       \<and> fit_to_window (next_image readable st) = fit_to_window st
       \<and> fit_to_window (prev_image readable st) = fit_to_window st
       \<and> scale (next_image readable st) =
           (if readable (files st ! nat (index (next_image readable st))) then 1 else scale st)
       \<and> scale (prev_image readable st) =
           (if readable (files st ! nat (index (prev_image readable st))) then 1 else scale st)"
  using assms by (simp add: next_image_def prev_image_def show_current_scale)

text \<open>The amended claim at the rotated view: rotation 90 stays, scale 2 becomes 1.\<close>

theorem navigation_view_state_witness:
  "files rotated_viewer \<noteq> []
   \<and> rotation_deg (next_image all_readable rotated_viewer) = 90
   \<and> fit_to_window (next_image all_readable rotated_viewer)
   \<and> scale (next_image all_readable rotated_viewer) = 1
   \<and> scale (prev_image all_readable rotated_viewer) = 1"
proof -
  have ne: "files rotated_viewer \<noteq> []" by (simp add: rotated_viewer_def)
  from navigation_view_state [OF ne, of all_readable] ne show ?thesis
    by (simp add: rotated_viewer_def all_readable_def)
qed

text \<open>
  Claim C8: on an image set of length at least 1 and from a valid cursor, \<open>next()\<close>
  followed by \<open>previous()\<close> leaves the cursor where it was; \<open>next()\<close> moves it by one
  modulo the length. This holds for the Qt handlers and for the GTK handlers.
\<close>

theorem next_then_previous_restores_cursor:
  assumes "files st \<noteq> []" and "valid_cursor st"
    and "gtk_files g \<noteq> []" and "0 \<le> gtk_index g" and "gtk_index g < int (length (gtk_files g))"
  shows "index (next_image readable st) = (index st + 1) mod int (length (files st))
       \<and> index (prev_image readable (next_image readable st)) = index st
       \<and> index (next_image readable (prev_image readable st)) = index st
       \<and> gtk_index (on_prev (on_next g)) = gtk_index g"
proof -
  let ?n = "int (length (files st))"
  have i: "0 \<le> index st" "index st < ?n" using assms(2) by (simp_all add: valid_cursor_def)
  have "((index st + 1) mod ?n - 1) mod ?n = index st mod ?n"
    by (simp add: mod_diff_left_eq)
  then have a: "index (prev_image readable (next_image readable st)) = index st"
    using assms(1) i by (simp add: prev_image_index next_image_index)
  have "((index st - 1) mod ?n + 1) mod ?n = index st mod ?n"
    by (simp add: mod_add_left_eq)
  then have b: "index (next_image readable (prev_image readable st)) = index st"
    using assms(1) i by (simp add: prev_image_index next_image_index)
  have c: "gtk_index (on_prev (on_next g)) = gtk_index g"
    using assms(3,4,5) by (simp add: on_prev_def on_next_def mod_diff_left_eq)
  from a b c next_image_index [OF assms(1)] show ?thesis by simp
qed

text \<open>Claim C8 at the wrap-around: from the last of three files, and from the first of two.\<close>

theorem next_then_previous_restores_cursor_witness:
  "files rotated_viewer \<noteq> [] \<and> valid_cursor rotated_viewer
   \<and> gtk_files gtk_example \<noteq> [] \<and> 0 \<le> gtk_index gtk_example
   \<and> gtk_index gtk_example < int (length (gtk_files gtk_example))
   \<and> index (next_image all_readable rotated_viewer) = 1
   \<and> index (prev_image all_readable (next_image all_readable rotated_viewer)) = 0
   \<and> index (next_image all_readable (prev_image all_readable rotated_viewer)) = 0
   \<and> gtk_index (on_next gtk_example) = 0
   \<and> gtk_index (on_prev (on_next gtk_example)) = 2"
proof -
  have h: "files rotated_viewer \<noteq> []" "valid_cursor rotated_viewer"
    "gtk_files gtk_example \<noteq> []" "0 \<le> gtk_index gtk_example"
    "gtk_index gtk_example < int (length (gtk_files gtk_example))"
    by (simp_all add: rotated_viewer_def valid_cursor_def gtk_example_def)
  have n: "gtk_index (on_next gtk_example) = 0"
    by (simp add: on_next_def gtk_example_def)
  from next_then_previous_restores_cursor [OF h, of all_readable] h n show ?thesis
    by (simp add: rotated_viewer_def gtk_example_def)
qed

section \<open>Removing the current file\<close>

lemma after_delete_cursor:
  assumes "valid_cursor st"
  shows "\<exists>st'. after_delete readable st = Inr st'
           \<and> length (files st') = length (files st) - 1
           \<and> (files st' \<noteq> [] \<longrightarrow> valid_cursor st')
           \<and> (files st' = [] \<longrightarrow> index st' = 0)"
proof -
  let ?i = "nat (index st)"
  let ?rest = "take ?i (files st) @ drop (Suc ?i) (files st)"
  have i: "0 \<le> index st" "index st < int (length (files st))"
    using assms by (simp_all add: valid_cursor_def)
  have pop: "py_pop (files st) (index st) = Inr (files st ! ?i, ?rest)"
    using i by (simp add: py_pop_def Let_def)
  let ?st2 = "st\<lparr>files := ?rest, index := max 0 (min (index st) (int (length ?rest) - 1))\<rparr>"
  have r: "after_delete readable st = Inr (show_current readable ?st2)"
    by (simp add: after_delete_def pop Let_def)
  have len: "length ?rest = length (files st) - 1" using i by auto
  have "files (show_current readable ?st2) \<noteq> [] \<longrightarrow> valid_cursor (show_current readable ?st2)"
    using show_current_valid [of ?st2 readable] by simp
  moreover have "files (show_current readable ?st2) = [] \<longrightarrow> index (show_current readable ?st2) = 0"
  proof
    assume "files (show_current readable ?st2) = []"
    then have e: "?rest = []" by simp
    then have "length ?rest = 0" by (simp only: list.size(3))
    with len have "length (files st) - 1 = 0" by (simp only:)
    then have "index st = 0" using i by linarith
    then have "index ?st2 = 0" using e by simp
    moreover have "index (show_current readable ?st2) = index ?st2"
      using e by (simp add: show_current_index del: append_is_Nil_conv)
    ultimately show "index (show_current readable ?st2) = 0" by simp
  qed
  ultimately show ?thesis using r len by simp
qed

text \<open>
  Claim C2: removing the only file leaves an empty image set with the cursor at the
  empty sentinel \<open>-1\<close>. \<^verbatim>\<open>after_delete\<close> clamps with \<^verbatim>\<open>max(0, min(index, len - 1))\<close>,
  which is 0 on the empty list: the cursor is left at 0, not at the \<open>-1\<close> that
  \<^verbatim>\<open>__init__\<close> and \<^verbatim>\<open>load_files\<close> store for an empty set.
\<close>

theorem after_delete_single_leaves_index_zero:
  "after_delete all_readable single_viewer
     = Inr \<lparr>files = [], index = 0, scale = 1, fit_to_window = False, rotation_deg = 0\<rparr>
   \<and> load_files example_fs all_readable [] single_viewer
     = \<lparr>files = [], index = -1, scale = 1, fit_to_window = False, rotation_deg = 0\<rparr>"
  by (simp add: after_delete_def py_pop_def show_current_def single_viewer_def load_files_def
      Let_def)

section \<open>Zoom, fit to window, rotation\<close>

lemma on_zoom_in_pow: "gtk_scale ((on_zoom_in ^^ n) g) = gtk_scale g * (12 / 10) ^ n"
  by (induction n) (simp_all add: on_zoom_in_def)

text \<open>
  Claim C6, as the specification states it: in every state a zoom leaves the scale
  clamped into \<open>[0.05, 20.0]\<close>. The zoom handler of the GTK viewers, \<^verbatim>\<open>on_zoom_in\<close>,
  multiplies by 1.2 without a bound: seventeen zooms from the initial scale 1.0 give
  a scale above 22.
\<close>

theorem on_zoom_in_unclamped_counterexample:
  "\<not> (5 / 100 \<le> gtk_scale ((on_zoom_in ^^ 17) gtk_initial)
      \<and> gtk_scale ((on_zoom_in ^^ 17) gtk_initial) \<le> 20)"
  by (simp add: on_zoom_in_pow gtk_initial_def power_divide divide_le_eq)

text \<open>
  Claim C6, amended: in the Qt viewer \<^verbatim>\<open>apply_zoom(factor)\<close> sets the scale to the old
  scale times the factor, clamped into \<open>[0.05, 20.0]\<close>, clears the fit-to-window flag
  and changes nothing else.
\<close>

theorem apply_zoom_spec:
  "apply_zoom factor st
     = st\<lparr>scale := max (5 / 100) (min (scale st * factor) 20), fit_to_window := False\<rparr>
   \<and> 5 / 100 \<le> scale (apply_zoom factor st) \<and> scale (apply_zoom factor st) \<le> 20
   \<and> \<not> fit_to_window (apply_zoom factor st)
   \<and> files (apply_zoom factor st) = files st
   \<and> index (apply_zoom factor st) = index st
   \<and> rotation_deg (apply_zoom factor st) = rotation_deg st"
  by (simp add: apply_zoom_def Let_def)

text \<open>
  Claim C7, as the specification states it: in every state the fit operation leaves
  the stored scale unchanged. The fit handler of the GTK viewers, \<^verbatim>\<open>on_fit\<close>, has no
  flag to set and stores 1.0 as the scale: after one zoom the scale is 1.2, and fitting
  makes it 1.0.
\<close>

theorem on_fit_resets_scale_counterexample:
  "gtk_scale (on_fit (on_zoom_in gtk_initial)) \<noteq> gtk_scale (on_zoom_in gtk_initial)"
  by (simp add: on_fit_def on_zoom_in_def gtk_initial_def)

text \<open>
  Claim C7, amended: in the Qt viewer \<^verbatim>\<open>toggle_fit\<close> changes the fit-to-window flag
  only; the stored scale is kept, and toggling twice gives back the state, scale
  included.
\<close>

theorem toggle_fit_spec:
  "toggle_fit st = st\<lparr>fit_to_window := \<not> fit_to_window st\<rparr>
   \<and> scale (toggle_fit st) = scale st
   \<and> files (toggle_fit st) = files st
   \<and> index (toggle_fit st) = index st
   \<and> rotation_deg (toggle_fit st) = rotation_deg st
   \<and> toggle_fit (toggle_fit st) = st"
  by (simp add: toggle_fit_def)

text \<open>
  Claim C9: from a rotation in \<open>[0, 360)\<close>, \<^verbatim>\<open>rotate(deg)\<close> stores
  \<open>(rotation + deg) mod 360\<close>, which lies in \<open>[0, 360)\<close> for negative \<open>deg\<close> too; four
  rotations by 90 give back the state.
\<close>

theorem rotate_spec:
  assumes "0 \<le> rotation_deg st" and "rotation_deg st < 360"
  shows "rotation_deg (rotate deg st) = (rotation_deg st + deg) mod 360
       \<and> 0 \<le> rotation_deg (rotate deg st) \<and> rotation_deg (rotate deg st) < 360
       \<and> rotate 90 (rotate 90 (rotate 90 (rotate 90 st))) = st"
  using assms by (simp add: rotate_def mod_add_left_eq)

text \<open>Claim C9 from rotation 0: a left turn gives 270, four right turns give 0.\<close>

theorem rotate_spec_witness:
  "0 \<le> rotation_deg init_viewer \<and> rotation_deg init_viewer < 360
   \<and> rotation_deg (rotate (- 90) init_viewer) = 270
   \<and> rotation_deg (rotate 90 (rotate 90 (rotate 90 (rotate 90 init_viewer)))) = 0"
proof -
  have h: "0 \<le> rotation_deg init_viewer" "rotation_deg init_viewer < 360"
    by (simp_all add: init_viewer_def)
  from rotate_spec [OF h, of "- 90"] h show ?thesis
    by (simp add: init_viewer_def)
qed

section \<open>Fitting the image to the window\<close>

lemma div_gt: "0 < (d::int) \<Longrightarrow> a < b div d \<Longrightarrow> a * d < b"
proof -
  assume d: "0 < d" and "a < b div d"
  then have "a + 1 \<le> b div d" by simp
  then have "(a + 1) * d \<le> (b div d) * d" using d by (simp only: mult_right_mono less_imp_le)
  moreover have "(b div d) * d + b mod d = b" by simp
  moreover have "0 \<le> b mod d" using d by simp
  moreover have "(a + 1) * d = a * d + d" by (simp add: distrib_right)
  ultimately show ?thesis using d by linarith
qed

lemma div_le: "0 < (d::int) \<Longrightarrow> a < b * d \<Longrightarrow> a div d \<le> b"
proof -
  assume d: "0 < d" and "a < b * d"
  then have "a div d \<le> (b * d) div d" by (simp only: zdiv_mono1 less_imp_le)
  then show ?thesis using d by simp
qed

text \<open>
  What the Qt viewer shows in fit mode lies inside the target and touches it on one
  side at least, whatever the size of the original.
\<close>

lemma qsize_scaled_inside:
  assumes "0 < fst sz" and "0 < snd sz" and "0 < fst s" and "0 < snd s"
  shows "fst (qsize_scaled sz s) \<le> fst s \<and> snd (qsize_scaled sz s) \<le> snd s
       \<and> (fst (qsize_scaled sz s) = fst s \<or> snd (qsize_scaled sz s) = snd s)"
proof (cases "snd s * fst sz div snd sz \<le> fst s")
  case True
  then have "qsize_scaled sz s = (snd s * fst sz div snd sz, snd s)"
    using assms(1,2) by (simp add: qsize_scaled_def Let_def)
  then show ?thesis using True by simp
next
  case False
  then have r: "qsize_scaled sz s = (fst s, fst s * snd sz div fst sz)"
    using assms(1,2) by (simp add: qsize_scaled_def Let_def)
  from False have "fst s < snd s * fst sz div snd sz" by simp
  with assms(2) have "fst s * snd sz < snd s * fst sz" by (rule div_gt)
  with assms(1) have "fst s * snd sz div fst sz \<le> snd s" by (rule div_le)
  then show ?thesis using r by simp
qed

text \<open>
  Claim C5, as the specification states it: in fit-to-window mode the display scale is
  \<open>min(W/w, H/h)\<close> and never exceeds 1.0 unless a zoom was applied. In the Qt viewer,
  with fit mode on and no zoom applied, a 100 by 100 image in an 824 by 624 viewport is
  shown at 600 by 600: the scale is 6, which is neither at most 1.0 nor the capped
  minimum of the viewport ratios.
\<close>

theorem update_pixmap_fit_enlarges_counterexample:
  "display_scale (100, 100) (update_pixmap fit_viewer (824, 624) (Some (100, 100))) = Some 6
   \<and> \<not> (6::real) \<le> 1
   \<and> (6::real) \<noteq> min (min (824 / 100) (624 / 100)) 1"
  by (simp add: display_scale_def update_pixmap_def fit_viewer_def qpixmap_scaled_def
      qsize_scaled_def pixmap_is_null_def Let_def)

text \<open>
  Claim C5, amended: in main.py, whose \<^verbatim>\<open>show_image\<close> always fits the image to the
  allocated area, for positive sizes the display scale is \<open>min(W/w, H/h)\<close> capped at
  1.0, that is \<open>min(W/w, H/h, 1.0)\<close>; it never exceeds 1.0, it equals \<open>min(W/w, H/h)\<close>
  when that is at most 1.0, and for a 4000 by 3000 image in an 800 by 600 area it is 0.2.
\<close>

theorem show_image_scale_spec:
  assumes "0 < W" and "0 < H" and "0 < w" and "0 < h"
  shows "show_image_scale W H w h
           = Inr (min (min (real_of_int W / real_of_int w) (real_of_int H / real_of_int h)) 1)
       \<and> (\<exists>s. show_image_scale W H w h = Inr s \<and> 0 < s \<and> s \<le> 1)
       \<and> (min (real_of_int W / real_of_int w) (real_of_int H / real_of_int h) \<le> 1 \<longrightarrow>
            show_image_scale W H w h
              = Inr (min (real_of_int W / real_of_int w) (real_of_int H / real_of_int h)))
       \<and> show_image_scale 800 600 4000 3000 = Inr (2 / 10)"
  using assms by (simp add: show_image_scale_def)

text \<open>
  The amended claim at the example of the specification, and at a 100 by 100 image in
  the same area, which is shown at its own size.
\<close>

theorem show_image_scale_spec_witness:
  "(0::int) < 800 \<and> (0::int) < 600 \<and> (0::int) < 4000 \<and> (0::int) < 3000
   \<and> min (real_of_int 800 / real_of_int 4000) (real_of_int 600 / real_of_int 3000) \<le> 1
   \<and> show_image_scale 800 600 4000 3000 = Inr (2 / 10)
   \<and> (0::int) < 100
   \<and> show_image_scale 800 600 100 100 = Inr 1"
proof -
  have a: "(0::int) < 800" "(0::int) < 600" "(0::int) < 4000" "(0::int) < 3000" "(0::int) < 100"
    by simp_all
  from show_image_scale_spec [OF a(1,2,3,4)] show_image_scale_spec [OF a(1,2,5,5)] show ?thesis
    by simp
qed

section \<open>Opening a directory or a file\<close>

lemma load_files_files: "files (load_files fs readable fl st) = filter (path_exists fs) fl"
  by (simp add: load_files_def Let_def)

lemma load_files_cursor: "cursor_ok (load_files fs readable fl st)"
  by (simp add: load_files_def Let_def cursor_ok_def valid_cursor_def show_current_index)

lemma load_files_distinct: "distinct fl \<Longrightarrow> distinct (files (load_files fs readable fl st))"
  by (simp add: load_files_files)

lemma natural_le_iff:
  "natural_le p q \<longleftrightarrow>
     (\<exists>a b. human_sort_key p = Inr a \<and> human_sort_key q = Inr b \<and> \<not> key_less b a)"
proof -
  have "key_le a b \<longleftrightarrow> \<not> key_less b a"
    if "human_sort_key p = Inr a" "human_sort_key q = Inr b" for a b
    using that key_le_iff [of True a b] human_sort_key_alternating by blast
  then show ?thesis
    by (auto simp: natural_le_def key_ord_def split: sum.splits)
qed

text \<open>
  Opening a directory whose names all have a key: the files loaded are the supported,
  existing entries, each as often as the directory lists it, in natural order, entries
  with equal keys in the order of the listing; the cursor is at the first file, or \<open>-1\<close>
  when there is none.
\<close>

lemma open_path_directory_sorted:
  assumes "is_dir fs d" and "listdir fs d = Inr names"
    and "\<forall>n \<in> set names. \<exists>k. human_sort_key (d @ [n]) = Inr k"
  shows "\<exists>st'. open_path fs readable d st = Inr st'
           \<and> sorted_wrt natural_le (files st')
           \<and> mset (files st')
               = mset (filter (\<lambda>p. supported p \<and> path_exists fs p) (map (\<lambda>n. d @ [n]) names))
           \<and> (\<forall>k. filter (\<lambda>p. human_sort_key p = Inr k) (files st')
                  = filter (\<lambda>p. human_sort_key p = Inr k)
                      (filter (\<lambda>p. supported p \<and> path_exists fs p) (map (\<lambda>n. d @ [n]) names)))
           \<and> cursor_ok st'"
proof -
  let ?entries = "map (\<lambda>n. d @ [n]) names"
  let ?keep = "\<lambda>p. supported p \<and> path_exists fs p"
  have it: "iterdir fs d = Inr ?entries" by (simp add: iterdir_def assms(2))
  have "\<forall>p \<in> set ?entries. \<exists>k. human_sort_key p = Inr k \<and> alternating True k"
    using assms(3) human_sort_key_alternating by auto
  from py_sorted_spec [OF this] obtain ordered where
    o: "py_sorted human_sort_key ?entries = Inr ordered" and
    m: "mset ordered = mset ?entries" and
    s: "sorted_wrt natural_le ordered" and
    st: "\<And>k. filter (\<lambda>p. human_sort_key p = Inr k) ordered
              = filter (\<lambda>p. human_sort_key p = Inr k) ?entries"
    unfolding natural_le_def by blast
  let ?st' = "load_files fs readable (filter supported ordered) st"
  have r: "open_path fs readable d st = Inr ?st'"
    by (simp add: open_path_def assms(1) it o)
  have f: "files ?st' = filter ?keep ordered"
    by (simp add: load_files_files conj_commute)
  have "sorted_wrt natural_le (files ?st')"
    unfolding f using s by (rule sorted_wrt_filter)
  moreover have "mset (files ?st') = mset (filter ?keep ?entries)"
    unfolding f using m by (metis mset_filter)
  moreover have "filter (\<lambda>p. human_sort_key p = Inr k) (files ?st')
                  = filter (\<lambda>p. human_sort_key p = Inr k) (filter ?keep ?entries)" for k
  proof -
    have "filter (\<lambda>p. human_sort_key p = Inr k) (filter ?keep ordered)
            = filter ?keep (filter (\<lambda>p. human_sort_key p = Inr k) ordered)"
      by (simp add: conj_commute)
    also have "\<dots> = filter ?keep (filter (\<lambda>p. human_sort_key p = Inr k) ?entries)"
      by (simp only: st)
    also have "\<dots> = filter (\<lambda>p. human_sort_key p = Inr k) (filter ?keep ?entries)"
      by (simp add: conj_commute)
    finally show ?thesis unfolding f .
  qed
  moreover have "cursor_ok ?st'" by (rule load_files_cursor)
  ultimately show ?thesis using r by blast
qed

text \<open>With a listing that names each entry once, the files of a directory are distinct.\<close>

lemma open_path_directory_distinct:
  assumes "is_dir fs d" and "listing_distinct fs d" and "open_path fs readable d st = Inr st'"
  shows "distinct (files st')"
proof -
  from assms(1,3) obtain names ordered where n: "listdir fs d = Inr names"
    and o: "py_sorted human_sort_key (map (\<lambda>n. d @ [n]) names) = Inr ordered"
    and st': "st' = load_files fs readable (filter supported ordered) st"
    by (auto simp: open_path_def iterdir_def split: sum.splits)
  have "distinct names" using assms(2) n by (simp add: listing_distinct_def)
  then have "distinct (map (\<lambda>n. d @ [n]) names)" by (simp add: distinct_map inj_on_def)
  then have "distinct ordered"
    using py_sorted_mset [OF o] by (metis mset_eq_imp_distinct_iff)
  then show ?thesis by (simp add: st' load_files_files)
qed

text \<open>The example of the specification: \<open>img2\<close>, \<open>img10\<close>, \<open>img1\<close> are loaded as 1, 2, 10.\<close>

lemma open_path_example_order:
  "open_path example_fs all_readable [''d''] init_viewer
     = Inr \<lparr>files = [[''d'', ''img1.png''], [''d'', ''img2.png''], [''d'', ''img10.png'']],
            index = 0, scale = 1, fit_to_window = False, rotation_deg = 0\<rparr>"
  by code_simp

text \<open>
  Digit runs count by value (leading zeros do not matter), letters by their lower case,
  and a key that is a proper prefix of another comes first.
\<close>

lemma natural_order_examples:
  "human_sort_key [''d'', ''IMG007b.PNG''] = Inr [TStr ''img'', TInt 7, TStr ''b.png'']"
  "natural_le [''d'', ''img9.png''] [''d'', ''img10.png'']"
  "\<not> natural_le [''d'', ''img10.png''] [''d'', ''img9.png'']"
  "natural_le [''d'', ''a''] [''d'', ''a1'']"
  "\<not> natural_le [''d'', ''a1''] [''d'', ''a'']"
  "natural_le [''d'', ''1.png''] [''d'', ''a.png'']"
  by code_simp+

text \<open>
  Claim C4: for every directory listing, opening the directory returns the supported
  files in natural order. The key function tests each piece with \<^verbatim>\<open>isdigit()\<close> and
  converts it with \<^verbatim>\<open>int()\<close>; a piece such as U+00B2 passes the test and is rejected by
  the conversion, so for a directory that holds a file named U+00B2 followed by
  \<open>10.png\<close> the sort raises ValueError and nothing is loaded.
\<close>

theorem open_path_superscript_name_raises:
  "human_sort_key [''d'', superscript_name] = Inl ValueError
   \<and> open_path superscript_fs all_readable [''d''] init_viewer = Inl ValueError"
  by code_simp

text \<open>
  Claim C3: after every load the image set has no duplicate paths. Opening a file
  loads the file itself followed by the entries of its directory, among them the file
  again: opening \<open>d/img2.png\<close> loads it twice.
\<close>

theorem open_path_file_lists_it_twice:
  "open_path example_fs all_readable [''d'', ''img2.png''] init_viewer
     = Inr \<lparr>files = [[''d'', ''img2.png''], [''d'', ''img2.png''], [''d'', ''img10.png''],
                     [''d'', ''img1.png'']],
            index = 0, scale = 1, fit_to_window = False, rotation_deg = 0\<rparr>
   \<and> \<not> distinct [[''d'', ''img2.png''], [''d'', ''img2.png''], [''d'', ''img10.png''],
                   [''d'', ''img1.png'']]"
  by code_simp

section \<open>Keys never mix integers and strings\<close>

text \<open>
  Claim C10: when the key function returns for two file names, each key has strings
  at its even positions and integers at its odd positions, so comparing the two keys
  returns a truth value instead of raising TypeError; and sorting any list of paths by
  this key never ends with TypeError.
\<close>

theorem human_sort_key_well_typed:
  assumes "human_sort_key p = Inr ka" and "human_sort_key q = Inr kb"
  shows "(\<forall>i < length ka. if even i then is_str (ka ! i) else is_int (ka ! i))
       \<and> (\<forall>i < length kb. if even i then is_str (kb ! i) else is_int (kb ! i))
       \<and> (\<exists>r. key_lt ka kb = Inr r)
       \<and> py_sorted human_sort_key ps \<noteq> Inl TypeError"
proof -
  have a: "alternating True ka" and b: "alternating True kb"
    using assms human_sort_key_alternating by blast+
  have "\<forall>i < length ka. if even i then is_str (ka ! i) else is_int (ka ! i)"
    using alternating_nth [OF a] by simp
  moreover have "\<forall>i < length kb. if even i then is_str (kb ! i) else is_int (kb ! i)"
    using alternating_nth [OF b] by simp
  moreover have "\<exists>r. key_lt ka kb = Inr r" using key_lt_alternating [OF a b] .
  ultimately show ?thesis using py_sorted_human_no_TypeError by blast
qed

text \<open>Claim C10 at \<open>img2.png\<close> and \<open>img10.png\<close>: the keys, their shape and their order.\<close>

theorem human_sort_key_well_typed_witness:
  "human_sort_key [''d'', ''img2.png''] = Inr [TStr ''img'', TInt 2, TStr ''.png'']
   \<and> human_sort_key [''d'', ''img10.png''] = Inr [TStr ''img'', TInt 10, TStr ''.png'']
   \<and> is_str ([TStr ''img'', TInt 2, TStr ''.png''] ! 0)
   \<and> is_int ([TStr ''img'', TInt 2, TStr ''.png''] ! 1)
   \<and> is_str ([TStr ''img'', TInt 2, TStr ''.png''] ! 2)
   \<and> key_lt [TStr ''img'', TInt 2, TStr ''.png''] [TStr ''img'', TInt 10, TStr ''.png'']
       = Inr True
   \<and> py_sorted human_sort_key [[''d'', ''img10.png''], [''d'', ''img2.png'']]
       \<noteq> Inl TypeError"
proof -
  have a: "human_sort_key [''d'', ''img2.png''] = Inr [TStr ''img'', TInt 2, TStr ''.png'']"
    by code_simp
  have b: "human_sort_key [''d'', ''img10.png''] = Inr [TStr ''img'', TInt 10, TStr ''.png'']"
    by code_simp
  have c: "key_lt [TStr ''img'', TInt 2, TStr ''.png''] [TStr ''img'', TInt 10, TStr ''.png'']
             = Inr True"
    by simp
  from human_sort_key_well_typed [OF a b, of "[[''d'', ''img10.png''], [''d'', ''img2.png'']]"]
  have "py_sorted human_sort_key [[''d'', ''img10.png''], [''d'', ''img2.png'']] \<noteq> Inl TypeError"
    by blast
  with a b c show ?thesis by simp
qed

end
